theory Spec2Isabelle
  imports Main "HOL-Library.Mapping" "HOL-Library.Signed_Division"
begin

section \<open>sputil::concurrency::ConcurrentQueue\<close>

text \<open>
  The class holds a \<^verbatim>\<open>std::queue<T>\<close>, a mutex and a condition variable. Every member
  function takes the mutex for its whole body, so each call is one atomic step on the
  item sequence. The head of the list is the front of the \<^verbatim>\<open>std::queue\<close>. The class has
  no other data member: in particular there is no closed flag and no \<^verbatim>\<open>close()\<close>.
\<close>

record 'a concurrent_queue =
  queue :: "'a list"

definition ConcurrentQueue :: "'a concurrent_queue" where
  "ConcurrentQueue = \<lparr>queue = []\<rparr>"

text \<open>\<^verbatim>\<open>push\<close>: \<^verbatim>\<open>queue.push(std::move(value))\<close> appends at the back.\<close>

definition push :: "'a \<Rightarrow> 'a concurrent_queue \<Rightarrow> 'a concurrent_queue" where
  "push v q = q\<lparr>queue := queue q @ [v]\<rparr>"

text \<open>
  \<^verbatim>\<open>pop\<close> waits on the condition variable with the predicate \<^verbatim>\<open>!queue.empty()\<close>. While
  the queue is empty the call does not return: that outcome is \<open>Blocked\<close>, and the state
  is untouched. Otherwise it returns the front element and removes it.
\<close>

datatype 'a pop_result = Blocked | Returned 'a

definition pop :: "'a concurrent_queue \<Rightarrow> 'a pop_result \<times> 'a concurrent_queue" where
  "pop q = (case queue q of
              [] \<Rightarrow> (Blocked, q)
            | x # xs \<Rightarrow> (Returned x, q\<lparr>queue := xs\<rparr>))"

text \<open>
  \<^verbatim>\<open>try_pop(T& value)\<close>: the first argument is the caller's variable, which is left as
  it was when the queue is empty.
\<close>

definition try_pop :: "'a \<Rightarrow> 'a concurrent_queue \<Rightarrow> bool \<times> 'a \<times> 'a concurrent_queue" where
  "try_pop v q = (case queue q of
                    [] \<Rightarrow> (False, v, q)
                  | x # xs \<Rightarrow> (True, x, q\<lparr>queue := xs\<rparr>))"

definition empty_q :: "'a concurrent_queue \<Rightarrow> bool" where
  "empty_q q = (queue q = [])"

definition size_q :: "'a concurrent_queue \<Rightarrow> nat" where
  "size_q q = length (queue q)"

text \<open>A producer pushing a sequence of items, and a consumer calling \<^verbatim>\<open>pop\<close> n times.\<close>

fun push_all :: "'a list \<Rightarrow> 'a concurrent_queue \<Rightarrow> 'a concurrent_queue" where
  "push_all [] q = q"
| "push_all (x # xs) q = push_all xs (push x q)"

fun pop_n :: "nat \<Rightarrow> 'a concurrent_queue \<Rightarrow> 'a list pop_result \<times> 'a concurrent_queue" where
  "pop_n 0 q = (Returned [], q)"
| "pop_n (Suc n) q =
     (case pop q of
        (Blocked, q') \<Rightarrow> (Blocked, q')
      | (Returned x, q') \<Rightarrow>
          (case pop_n n q' of
             (Blocked, q'') \<Rightarrow> (Blocked, q'')
           | (Returned xs, q'') \<Rightarrow> (Returned (x # xs), q'')))"

section \<open>sputil::threading::ThreadPool\<close>

text \<open>
  The pool owns a vector of worker threads, a queue of type-erased tasks and the
  \<^verbatim>\<open>stop\<close> flag; \<open>workers\<close> is the size of the vector. The field \<open>completed\<close> is not a
  member of the class: it counts the calls \<^verbatim>\<open>task()\<close> that workers have made, so that
  execution can be observed. The size parameter is a \<^verbatim>\<open>size_t\<close>, hence a natural number.
\<close>

datatype error = Runtime_error string

record 'task thread_pool =
  workers :: nat
  tasks :: "'task list"
  stop :: bool
  completed :: nat

text \<open>
  The constructor sets \<^verbatim>\<open>stop(false)\<close> and then starts the workers one after another
  in its \<^verbatim>\<open>for\<close> loop; it has no check of \<^verbatim>\<open>threads\<close>. Starting a thread is the one step
  that can fail: the constructor of \<^verbatim>\<open>std::thread\<close> throws when the system cannot start
  another thread, and then no pool results. \<open>startable\<close> is the number of threads the
  system can still start when the constructor is called. \<open>start_workers\<close> is the loop:
  it gives the number of workers started, or \<open>None\<close> when a start fails.
\<close>

fun start_workers :: "nat \<Rightarrow> nat \<Rightarrow> nat option" where
  "start_workers startable 0 = Some 0"
| "start_workers 0 (Suc n) = None"
| "start_workers (Suc s) (Suc n) = map_option Suc (start_workers s n)"

definition ThreadPool :: "nat \<Rightarrow> nat \<Rightarrow> 'task thread_pool option" where
  "ThreadPool startable threads =
     (case start_workers startable threads of
        None \<Rightarrow> None
      | Some n \<Rightarrow> Some \<lparr>workers = n, tasks = [], stop = False, completed = 0\<rparr>)"

text \<open>
  \<^verbatim>\<open>enqueue\<close>: under the lock, \<^verbatim>\<open>if (stop) throw std::runtime_error(...)\<close>, otherwise the
  task is appended. The returned future is not part of the pool and is left out.
\<close>

definition enqueue :: "'task \<Rightarrow> 'task thread_pool \<Rightarrow> (error + unit) \<times> 'task thread_pool" where
  "enqueue f p =
     (if stop p then (Inl (Runtime_error ''enqueue on stopped ThreadPool''), p)
      else (Inr (), p\<lparr>tasks := tasks p @ [f]\<rparr>))"

text \<open>
  One iteration of a worker's loop. It waits until \<^verbatim>\<open>stop || !tasks.empty()\<close>; then it
  returns from the thread function if \<^verbatim>\<open>stop && tasks.empty()\<close>, and otherwise takes the
  front task and calls it. The empty case of the inner \<open>case\<close> cannot be reached.
\<close>

datatype 'task worker_step = Waits | Exits | Runs 'task

definition worker :: "'task thread_pool \<Rightarrow> 'task worker_step \<times> 'task thread_pool" where
  "worker p =
     (if stop p \<or> tasks p \<noteq> [] then
        (if stop p \<and> tasks p = [] then (Exits, p)
         else (case tasks p of
                 [] \<Rightarrow> (Exits, p)
               | task # rest \<Rightarrow>
                   (Runs task, p\<lparr>tasks := rest, completed := Suc (completed p)\<rparr>)))
      else (Waits, p))"

text \<open>
  The destructor sets \<^verbatim>\<open>stop = true\<close> under the lock, wakes every worker and joins them.
  The class has no other way to stop; joining is the workers' own steps.
\<close>

definition destroy :: "'task thread_pool \<Rightarrow> 'task thread_pool" where
  "destroy p = p\<lparr>stop := True\<rparr>"

text \<open>
  What can happen to a pool, in any interleaving: a caller submits, a worker runs one
  iteration (only if the pool has a worker), the destructor begins.
\<close>

datatype 'task pool_event = Enqueue 'task | Worker | Destroy

fun pool_step :: "'task pool_event \<Rightarrow> 'task thread_pool \<Rightarrow> 'task thread_pool" where
  "pool_step (Enqueue f) p = snd (enqueue f p)"
| "pool_step Worker p = (if workers p = 0 then p else snd (worker p))"
| "pool_step Destroy p = destroy p"

fun pool_run :: "'task pool_event list \<Rightarrow> 'task thread_pool \<Rightarrow> 'task thread_pool" where
  "pool_run [] p = p"
| "pool_run (e # es) p = pool_run es (pool_step e p)"

section \<open>sputil::concurrency::RateLimiter\<close>

text \<open>
  Time points of \<^verbatim>\<open>std::chrono::steady_clock\<close> are integers counting clock ticks; the
  tick is a nanosecond, as in the common standard libraries. \<open>min_delay\<close> is a
  \<^verbatim>\<open>std::chrono::milliseconds\<close> value.
\<close>

definition ticks_per_ms :: int where
  "ticks_per_ms = 1000000"

record rate_limiter =
  last_call :: int
  min_delay :: int

text \<open>
  The constructor reads the clock (\<open>now\<close>) and computes \<^verbatim>\<open>1000 / calls_per_second\<close> on
  \<^verbatim>\<open>int\<close>, which truncates towards zero. Division by zero is undefined behaviour: no
  object results.
\<close>

definition RateLimiter :: "int \<Rightarrow> int \<Rightarrow> rate_limiter option" where
  "RateLimiter calls_per_second now =
     (if calls_per_second = 0 then None
      else Some \<lparr>last_call = now, min_delay = 1000 sdiv calls_per_second\<rparr>)"

text \<open>
  \<^verbatim>\<open>acquire\<close>: \<open>now\<close> is the clock reading at entry. \<^verbatim>\<open>duration_cast<milliseconds>\<close> truncates
  the elapsed ticks towards zero. If that is less than \<open>min_delay\<close> the thread sleeps
  for the difference; \<^verbatim>\<open>sleep_for\<close> blocks for at least the duration asked, and \<open>late\<close>
  is the number of ticks by which the second clock reading exceeds that. The result is
  the duration slept for, in milliseconds (0 when \<^verbatim>\<open>sleep_for\<close> is not called), and the
  new state.
\<close>

definition acquire :: "int \<Rightarrow> nat \<Rightarrow> rate_limiter \<Rightarrow> int \<times> rate_limiter" where
  "acquire now late rl =
     (let elapsed = (now - last_call rl) sdiv ticks_per_ms;
          slept = (if elapsed < min_delay rl then min_delay rl - elapsed else 0)
      in (slept, rl\<lparr>last_call := now + slept * ticks_per_ms + int late\<rparr>))"

section \<open>sputil::algorithm::LRUCache\<close>

text \<open>
  \<open>items\<close> is the \<^verbatim>\<open>std::list<T>\<close>, front first. A list iterator is the identity of a
  list node, and stays valid while the node is in the list: each element is stored with
  the identity of its node, and \<open>cache_map\<close> maps a key to a node identity as the
  \<^verbatim>\<open>unordered_map\<close> maps it to an iterator. The capacity is a \<^verbatim>\<open>size_t\<close>.
\<close>

type_synonym node = nat

record 'k lru_cache =
  capacity :: nat
  items :: "(node \<times> 'k) list"
  cache_map :: "('k, node) mapping"

text \<open>The node that \<^verbatim>\<open>push_front\<close> allocates: an identity no node of the list has.\<close>

fun fresh_node :: "(node \<times> 'k) list \<Rightarrow> node" where
  "fresh_node [] = 0"
| "fresh_node ((i, k) # xs) = max (Suc i) (fresh_node xs)"

text \<open>\<^verbatim>\<open>items.erase(it)\<close> unlinks the node \<open>it\<close> points to.\<close>

definition erase_node :: "node \<Rightarrow> (node \<times> 'k) list \<Rightarrow> (node \<times> 'k) list" where
  "erase_node it xs = filter (\<lambda>p. fst p \<noteq> it) xs"

text \<open>\<^verbatim>\<open>items.splice(items.begin(), items, it)\<close> relinks that node at the front.\<close>

definition splice_front :: "node \<Rightarrow> (node \<times> 'k) list \<Rightarrow> (node \<times> 'k) list" where
  "splice_front it xs =
     (case find (\<lambda>p. fst p = it) xs of
        None \<Rightarrow> xs
      | Some p \<Rightarrow> p # filter (\<lambda>p. fst p \<noteq> it) xs)"

text \<open>The constructor stores the capacity; it has no check.\<close>

definition LRUCache :: "nat \<Rightarrow> 'k lru_cache" where
  "LRUCache cap = \<lparr>capacity = cap, items = [], cache_map = Mapping.empty\<rparr>"

text \<open>
  \<^verbatim>\<open>put\<close>: \<open>c1\<close> is the state after the \<^verbatim>\<open>if (it != cache_map.end())\<close> block, \<open>c2\<close> the
  state after \<^verbatim>\<open>push_front\<close> and \<^verbatim>\<open>cache_map[key] = items.begin()\<close>; the test then compares
  \<^verbatim>\<open>cache_map.size()\<close> with the capacity and drops the last node and its key.
\<close>

definition put :: "'k \<Rightarrow> 'k lru_cache \<Rightarrow> 'k lru_cache" where
  "put key c =
     (let c1 = (case Mapping.lookup (cache_map c) key of
                  Some it \<Rightarrow> c\<lparr>items := erase_node it (items c),
                               cache_map := Mapping.delete key (cache_map c)\<rparr>
                | None \<Rightarrow> c);
          n = fresh_node (items c1);
          c2 = c1\<lparr>items := (n, key) # items c1,
                  cache_map := Mapping.update key n (cache_map c1)\<rparr>
      in if Mapping.size (cache_map c2) > capacity c2
         then c2\<lparr>cache_map := Mapping.delete (snd (last (items c2))) (cache_map c2),
                 items := butlast (items c2)\<rparr>
         else c2)"

definition get :: "'k \<Rightarrow> 'k lru_cache \<Rightarrow> bool \<times> 'k lru_cache" where
  "get key c =
     (case Mapping.lookup (cache_map c) key of
        None \<Rightarrow> (False, c)
      | Some it \<Rightarrow> (True, c\<lparr>items := splice_front it (items c)\<rparr>))"

definition contains :: "'k \<Rightarrow> 'k lru_cache \<Rightarrow> bool" where
  "contains key c = (Mapping.lookup (cache_map c) key \<noteq> None)"

text \<open>\<^verbatim>\<open>size()\<close> returns \<^verbatim>\<open>items.size()\<close>.\<close>

definition size_lru :: "'k lru_cache \<Rightarrow> nat" where
  "size_lru c = length (items c)"

text \<open>The keys in recency order, most recently used first.\<close>

definition keys_of :: "'k lru_cache \<Rightarrow> 'k list" where
  "keys_of c = map snd (items c)"

text \<open>Sequences of calls: \<^verbatim>\<open>contains\<close> and \<^verbatim>\<open>size\<close> are const and leave the state alone.\<close>

fun put_all :: "'k list \<Rightarrow> 'k lru_cache \<Rightarrow> 'k lru_cache" where
  "put_all [] c = c"
| "put_all (k # ks) c = put_all ks (put k c)"

datatype 'k lru_op = Put 'k | Get 'k | Contains 'k | Size

fun apply_op :: "'k lru_op \<Rightarrow> 'k lru_cache \<Rightarrow> 'k lru_cache" where
  "apply_op (Put k) c = put k c"
| "apply_op (Get k) c = snd (get k c)"
| "apply_op (Contains k) c = c"
| "apply_op Size c = c"

fun run :: "'k lru_op list \<Rightarrow> 'k lru_cache \<Rightarrow> 'k lru_cache" where
  "run [] c = c"
| "run (x # xs) c = run xs (apply_op x c)"

text \<open>
  The index is right for the list: node identities and keys are each distinct, and the
  map sends a key to a node exactly when that node holds the key.
\<close>

definition index_ok :: "(node \<times> 'k) list \<Rightarrow> ('k, node) mapping \<Rightarrow> bool" where
  "index_ok xs m \<longleftrightarrow>
     distinct (map fst xs) \<and> distinct (map snd xs) \<and>
     (\<forall>k i. Mapping.lookup m k = Some i \<longleftrightarrow> (i, k) \<in> set xs)"

definition lru_inv :: "'k lru_cache \<Rightarrow> bool" where
  "lru_inv c \<longleftrightarrow> index_ok (items c) (cache_map c) \<and> length (items c) \<le> capacity c"

section \<open>The blocking queue: facts\<close>

lemma queue_push_all: "queue (push_all xs q) = queue q @ xs"
  by (induction xs arbitrary: q) (simp_all add: push_def)

lemma pop_n_drains:
  "queue q = xs \<Longrightarrow> pop_n (length xs) q = (Returned xs, q\<lparr>queue := []\<rparr>)"
proof (induction xs arbitrary: q)
  case Nil
  then show ?case by simp
next
  case (Cons x xs)
  have "pop q = (Returned x, q\<lparr>queue := xs\<rparr>)"
    using Cons.prems by (simp add: pop_def)
  moreover have "pop_n (length xs) (q\<lparr>queue := xs\<rparr>) = (Returned xs, q\<lparr>queue := []\<rparr>)"
    using Cons.IH [of "q\<lparr>queue := xs\<rparr>"] by simp
  ultimately show ?case by simp
qed

text \<open>
  C7. N pushes by one producer into a fresh queue followed by N pops: every pop returns
  (none blocks), the values come out in push order, and the queue is empty again.
\<close>

theorem fifo_push_then_pop:
  "pop_n (length xs) (push_all xs ConcurrentQueue) = (Returned xs, ConcurrentQueue)"
proof -
  have "queue (push_all xs ConcurrentQueue) = xs"
    by (simp add: queue_push_all ConcurrentQueue_def)
  from pop_n_drains [OF this]
  have "pop_n (length xs) (push_all xs ConcurrentQueue)
          = (Returned xs, (push_all xs ConcurrentQueue)\<lparr>queue := []\<rparr>)" .
  moreover have "(push_all xs (ConcurrentQueue :: 'a concurrent_queue))\<lparr>queue := []\<rparr>
          = ConcurrentQueue"
    by (simp add: ConcurrentQueue_def)
  ultimately show ?thesis by simp
qed

text \<open>Three pushes and three pops, on strings.\<close>

theorem fifo_push_then_pop_witness:
  "pop_n 3 (push ''c'' (push ''b'' (push ''a'' ConcurrentQueue)))
     = (Returned [''a'', ''b'', ''c''], ConcurrentQueue)"
  using fifo_push_then_pop [of "[''a'', ''b'', ''c'']"]
  by (simp add: numeral_3_eq_3)

text \<open>
  C1, as stated, fails: the queue has no closed state, and on an empty queue
  \<^verbatim>\<open>pop\<close> does not return at all; nothing it could return marks an end of stream.
\<close>

theorem pop_empty_queue_blocks:
  "pop (ConcurrentQueue :: nat concurrent_queue) = (Blocked, ConcurrentQueue)"
  by (simp add: pop_def ConcurrentQueue_def)

text \<open>
  C1, amended. The state of the queue is either empty, and then \<^verbatim>\<open>pop\<close> blocks with the
  state unchanged while \<^verbatim>\<open>try_pop\<close> returns false at once and leaves the caller's
  variable alone; or it has a front element, and then \<^verbatim>\<open>pop\<close> returns that element at
  once and removes it.
\<close>

theorem pop_blocks_or_returns_front:
  "(queue q = [] \<and> pop q = (Blocked, q) \<and> try_pop v q = (False, v, q))
   \<or> (\<exists>x xs. queue q = x # xs \<and> pop q = (Returned x, q\<lparr>queue := xs\<rparr>))"
  by (cases "queue q") (simp_all add: pop_def try_pop_def)

theorem pop_blocks_or_returns_front_witness:
  "pop (push (5::nat) ConcurrentQueue) = (Returned 5, ConcurrentQueue) \<and>
   try_pop (0::nat) ConcurrentQueue = (False, 0, ConcurrentQueue)"
  using pop_blocks_or_returns_front [of "push (5::nat) ConcurrentQueue" 0]
    pop_blocks_or_returns_front [of "ConcurrentQueue :: nat concurrent_queue" 0]
  by (simp add: push_def ConcurrentQueue_def)

section \<open>The thread pool: facts\<close>

lemma start_workers_eq:
  "start_workers startable threads = (if threads \<le> startable then Some threads else None)"
  by (induction startable threads rule: start_workers.induct) simp_all

lemma ThreadPool_started:
  "threads \<le> startable \<Longrightarrow>
   ThreadPool startable threads
     = Some \<lparr>workers = threads, tasks = [], stop = False, completed = 0\<rparr>"
  by (simp add: ThreadPool_def start_workers_eq)

lemma pool_step_stop: "stop p \<Longrightarrow> stop (pool_step e p)"
  by (cases e) (simp_all add: enqueue_def worker_def destroy_def split: list.splits)

lemma pool_run_stop: "stop p \<Longrightarrow> stop (pool_run es p)"
  by (induction es arbitrary: p) (simp_all add: pool_step_stop)

lemma pool_step_no_worker:
  "workers p = 0 \<Longrightarrow> workers (pool_step e p) = 0 \<and> completed (pool_step e p) = completed p"
  by (cases e) (simp_all add: enqueue_def destroy_def)

lemma pool_run_no_worker:
  "workers p = 0 \<Longrightarrow> completed (pool_run es p) = completed p"
proof (induction es arbitrary: p)
  case Nil
  then show ?case by simp
next
  case (Cons e es)
  from pool_step_no_worker [OF Cons.prems, of e] Cons.IH [of "pool_step e p"]
  show ?case by simp
qed

text \<open>
  C4. Once the destructor has set the stop flag, whatever submissions and worker
  iterations follow, a call of \<^verbatim>\<open>enqueue\<close> throws the runtime error and leaves the pool
  as it was: the pending tasks and the number of executed tasks are unchanged.
\<close>

theorem enqueue_after_stop_rejected:
  "enqueue f (pool_run es (destroy p))
     = (Inl (Runtime_error ''enqueue on stopped ThreadPool''), pool_run es (destroy p)) \<and>
   tasks (snd (enqueue f (pool_run es (destroy p)))) = tasks (pool_run es (destroy p)) \<and>
   completed (snd (enqueue f (pool_run es (destroy p)))) = completed (pool_run es (destroy p))"
proof -
  have "stop (pool_run es (destroy p))"
    by (rule pool_run_stop) (simp add: destroy_def)
  then show ?thesis
    by (simp add: enqueue_def)
qed

text \<open>
  A pool of two workers, on a system that can start eight threads, with one task
  pending: after the destructor has begun and a worker has run that task, a submission
  is refused and nothing is queued.
\<close>

theorem enqueue_after_stop_rejected_witness:
  "ThreadPool 8 2 = Some \<lparr>workers = 2, tasks = ([] :: nat list), stop = False, completed = 0\<rparr> \<and>
   enqueue (9::nat) (pool_run [Worker] (destroy (snd (enqueue 4 (the (ThreadPool 8 2))))))
     = (Inl (Runtime_error ''enqueue on stopped ThreadPool''),
        \<lparr>workers = 2, tasks = [], stop = True, completed = 1\<rparr>)"
  using enqueue_after_stop_rejected
    [of 9 "[Worker]" "snd (enqueue (4::nat) (the (ThreadPool 8 2)))"]
  by (simp add: ThreadPool_started enqueue_def destroy_def worker_def)

section \<open>The rate limiter: facts\<close>

lemma sdiv_nonneg: "0 \<le> k \<Longrightarrow> 0 < l \<Longrightarrow> k sdiv l = k div (l::int)"
  by (cases "k = 0") (simp_all add: signed_divide_int_def)

lemma RateLimiter_pos:
  "0 < cps \<Longrightarrow> RateLimiter cps t0 = Some \<lparr>last_call = t0, min_delay = 1000 div cps\<rparr>"
  by (simp add: RateLimiter_def sdiv_nonneg)

lemma acquire_monotonic:
  assumes "last_call rl \<le> now"
  shows "acquire now late rl =
     (let elapsed = (now - last_call rl) div ticks_per_ms;
          slept = (if elapsed < min_delay rl then min_delay rl - elapsed else 0)
      in (slept, rl\<lparr>last_call := now + slept * ticks_per_ms + int late\<rparr>))"
  using assms by (simp add: acquire_def sdiv_nonneg ticks_per_ms_def)

lemma acquire_gap:
  assumes "last_call rl \<le> now"
  shows "last_call rl + min_delay rl * ticks_per_ms \<le> last_call (snd (acquire now late rl))"
proof -
  define d where "d = now - last_call rl"
  define e where "e = d div 1000000"
  have "e * 1000000 \<le> d" unfolding e_def by simp
  then show ?thesis
    using assms unfolding acquire_monotonic [OF assms] Let_def ticks_per_ms_def d_def [symmetric] e_def [symmetric]
    by (auto simp: d_def algebra_simps)
qed

text \<open>
  C2, as stated, fails: a limiter for 2 calls per second, constructed at tick
  5000000000 and asked one millisecond later, sleeps for 499 ms.
\<close>

theorem first_acquire_waits:
  "RateLimiter 2 5000000000 = Some \<lparr>last_call = 5000000000, min_delay = 500\<rparr> \<and>
   fst (acquire 5001000000 0 \<lparr>last_call = 5000000000, min_delay = 500\<rparr>) = 499"
  by (simp add: RateLimiter_def acquire_def ticks_per_ms_def signed_divide_int_def)

text \<open>
  C2, amended. For a positive rate the limiter is constructed with the construction
  time as its baseline, and the first \<^verbatim>\<open>acquire\<close> sleeps for what is left of
  \<open>1000 div cps\<close> milliseconds after the whole milliseconds elapsed since construction;
  it returns without sleeping exactly when at least that many have elapsed.
\<close>

theorem first_acquire_sleeps_remainder:
  assumes "0 < cps" and "t0 \<le> now"
  shows "RateLimiter cps t0 = Some \<lparr>last_call = t0, min_delay = 1000 div cps\<rparr> \<and>
         fst (acquire now late \<lparr>last_call = t0, min_delay = 1000 div cps\<rparr>)
           = max 0 (1000 div cps - (now - t0) div ticks_per_ms) \<and>
         (fst (acquire now late \<lparr>last_call = t0, min_delay = 1000 div cps\<rparr>) = 0)
           = (1000 div cps \<le> (now - t0) div ticks_per_ms)"
  using assms by (simp add: RateLimiter_pos acquire_monotonic Let_def)

theorem first_acquire_sleeps_remainder_witness:
  "(0::int) < 2 \<and> (5000000000::int) \<le> 5001000000 \<and>
   RateLimiter 2 5000000000 = Some \<lparr>last_call = 5000000000, min_delay = 500\<rparr> \<and>
   fst (acquire 5001000000 0 \<lparr>last_call = 5000000000, min_delay = 500\<rparr>) = 499 \<and>
   fst (acquire 5500000000 0 \<lparr>last_call = 5000000000, min_delay = 500\<rparr>) = 0"
  using first_acquire_sleeps_remainder [of 2 5000000000 5001000000 0]
    first_acquire_sleeps_remainder [of 2 5000000000 5500000000 0]
  by (simp add: ticks_per_ms_def)

text \<open>
  C9, as stated, fails: a limiter for 3 calls per second constructed at tick 0 grants at
  ticks 333000000 and 666000000 without sleeping. The two grants are 333 ms apart,
  which is less than one second divided by 3.
\<close>

theorem spacing_truncated:
  "RateLimiter 3 0 = Some \<lparr>last_call = 0, min_delay = 333\<rparr> \<and>
   acquire 333000000 0 \<lparr>last_call = 0, min_delay = 333\<rparr>
     = (0, \<lparr>last_call = 333000000, min_delay = 333\<rparr>) \<and>
   acquire 666000000 0 \<lparr>last_call = 333000000, min_delay = 333\<rparr>
     = (0, \<lparr>last_call = 666000000, min_delay = 333\<rparr>) \<and>
   3 * (666000000 - 333000000) < 1000 * ticks_per_ms"
  by (simp add: RateLimiter_def acquire_def ticks_per_ms_def signed_divide_int_def)

text \<open>
  C9, amended. For a positive rate the minimum spacing is \<open>1000 div cps\<close> whole
  milliseconds (the quotient rounded down), it never changes, and of any two
  consecutive grants the second is recorded at least that many milliseconds after the
  first on the steady clock. The hypothesis on \<open>now2\<close> says that the clock does not run
  backwards between the two calls.
\<close>

theorem grants_spaced:
  assumes "0 < cps" and "RateLimiter cps t0 = Some rl0"
    and "min_delay rl = min_delay rl0"
    and "last_call (snd (acquire now1 late1 rl)) \<le> now2"
  shows "min_delay rl0 = 1000 div cps \<and>
         min_delay (snd (acquire now1 late1 rl)) = 1000 div cps \<and>
         last_call (snd (acquire now1 late1 rl)) + (1000 div cps) * ticks_per_ms
           \<le> last_call (snd (acquire now2 late2 (snd (acquire now1 late1 rl))))"
proof -
  have m0: "min_delay rl0 = 1000 div cps"
    using assms(1,2) by (auto simp: RateLimiter_pos)
  have m1: "min_delay (snd (acquire now1 late1 rl)) = 1000 div cps"
    using m0 assms(3) by (simp add: acquire_def Let_def)
  show ?thesis
    using acquire_gap [OF assms(4), of late2] m0 m1 by simp
qed

theorem grants_spaced_witness:
  "(0::int) < 3 \<and> RateLimiter 3 0 = Some \<lparr>last_call = 0, min_delay = 333\<rparr> \<and>
   last_call (snd (acquire 100000000 7 \<lparr>last_call = 0, min_delay = 333\<rparr>)) \<le> 400000000 \<and>
   last_call (snd (acquire 100000000 7 \<lparr>last_call = 0, min_delay = 333\<rparr>)) + 333 * ticks_per_ms
     \<le> last_call (snd (acquire 400000000 0 (snd (acquire 100000000 7 \<lparr>last_call = 0, min_delay = 333\<rparr>))))"
proof -
  have a: "(0::int) < 3" by simp
  have b: "RateLimiter 3 0 = Some \<lparr>last_call = 0, min_delay = 333\<rparr>"
    by (simp add: RateLimiter_def signed_divide_int_def)
  have c: "last_call (snd (acquire 100000000 7 \<lparr>last_call = 0, min_delay = 333\<rparr>)) \<le> 400000000"
    by (simp add: acquire_def ticks_per_ms_def signed_divide_int_def)
  from grants_spaced [OF a b refl c, of 0] a b c show ?thesis by simp
qed

section \<open>The LRU cache: facts\<close>

subsection \<open>List nodes and the index\<close>

lemma fresh_node_gt: "(i, k) \<in> set xs \<Longrightarrow> i < fresh_node xs"
  by (induction xs rule: fresh_node.induct) auto

lemma index_ok_keys:
  assumes "index_ok xs m"
  shows "Mapping.keys m = set (map snd xs)"
proof -
  have "k \<in> Mapping.keys m \<longleftrightarrow> k \<in> snd ` set xs" for k
  proof -
    have "k \<in> Mapping.keys m \<longleftrightarrow> (\<exists>i. Mapping.lookup m k = Some i)"
      by (auto simp: keys_dom_lookup)
    also have "\<dots> \<longleftrightarrow> (\<exists>i. (i, k) \<in> set xs)"
      using assms by (simp add: index_ok_def)
    also have "\<dots> \<longleftrightarrow> k \<in> snd ` set xs"
      by force
    finally show ?thesis .
  qed
  then show ?thesis by auto
qed

lemma index_ok_size: "index_ok xs m \<Longrightarrow> Mapping.size m = length xs"
  using index_ok_keys[of xs m] distinct_card[of "map snd xs"]
  by (simp add: Mapping.size_def index_ok_def)

lemma index_ok_absent:
  assumes "index_ok xs m"
  shows "Mapping.lookup m k = None \<longleftrightarrow> k \<notin> set (map snd xs)"
proof -
  have "Mapping.lookup m k = None \<longleftrightarrow> k \<notin> Mapping.keys m"
    by (auto simp: keys_dom_lookup)
  then show ?thesis
    by (simp add: index_ok_keys [OF assms])
qed

lemma same_node_same_key:
  assumes "distinct (map fst xs)" "distinct (map snd xs)" "(i, k) \<in> set xs" "p \<in> set xs"
  shows "(fst p = i) = (snd p = k)"
proof -
  have "inj_on fst (set xs)" "inj_on snd (set xs)"
    using assms(1,2) by (simp_all add: distinct_map)
  then show ?thesis
    using assms(3,4) by (metis inj_onD fst_conv snd_conv)
qed

lemma erase_node_by_key:
  assumes "distinct (map fst xs)" "distinct (map snd xs)" "(i, k) \<in> set xs"
  shows "erase_node i xs = filter (\<lambda>p. snd p \<noteq> k) xs"
  unfolding erase_node_def
  by (rule filter_cong [OF refl]) (simp add: same_node_same_key [OF assms])

lemma map_snd_filter_key:
  "distinct (map snd xs) \<Longrightarrow> map snd (filter (\<lambda>p. snd p \<noteq> k) xs) = remove1 k (map snd xs)"
  by (induction xs) (auto simp: remove1_idem)

lemma find_node:
  "distinct (map fst xs) \<Longrightarrow> (i, k) \<in> set xs \<Longrightarrow> find (\<lambda>p. fst p = i) xs = Some (i, k)"
  by (induction xs) (auto simp: image_iff)

lemma index_ok_empty: "index_ok [] Mapping.empty"
  by (simp add: index_ok_def)

lemma index_ok_erase:
  assumes ok: "index_ok xs m" and look: "Mapping.lookup m k = Some i"
  shows "index_ok (erase_node i xs) (Mapping.delete k m)"
    and "map snd (erase_node i xs) = remove1 k (map snd xs)"
proof -
  from ok have d1: "distinct (map fst xs)" and d2: "distinct (map snd xs)"
    and ix: "\<And>k i. Mapping.lookup m k = Some i \<longleftrightarrow> (i, k) \<in> set xs"
    by (simp_all add: index_ok_def)
  from look ix have mem: "(i, k) \<in> set xs" by simp
  have e: "erase_node i xs = filter (\<lambda>p. snd p \<noteq> k) xs"
    by (rule erase_node_by_key [OF d1 d2 mem])
  show "map snd (erase_node i xs) = remove1 k (map snd xs)"
    by (simp add: e map_snd_filter_key [OF d2])
  have "Mapping.lookup (Mapping.delete k m) k' = Some j
          \<longleftrightarrow> (j, k') \<in> set (filter (\<lambda>p. snd p \<noteq> k) xs)" for k' j
    by (cases "k' = k") (simp_all add: ix)
  then show "index_ok (erase_node i xs) (Mapping.delete k m)"
    using d1 d2 by (simp add: index_ok_def e distinct_map_filter)
qed

lemma index_ok_push_front:
  assumes ok: "index_ok xs m" and look: "Mapping.lookup m k = None"
  shows "index_ok ((fresh_node xs, k) # xs) (Mapping.update k (fresh_node xs) m)"
proof -
  from ok have d1: "distinct (map fst xs)" and d2: "distinct (map snd xs)"
    and ix: "\<And>k i. Mapping.lookup m k = Some i \<longleftrightarrow> (i, k) \<in> set xs"
    by (simp_all add: index_ok_def)
  have f: "fresh_node xs \<notin> set (map fst xs)"
    using fresh_node_gt [of _ _ xs] by fastforce
  have a: "k \<notin> set (map snd xs)"
    using index_ok_absent [OF ok] look by simp
  have "Mapping.lookup (Mapping.update k (fresh_node xs) m) k' = Some j
          \<longleftrightarrow> (j, k') \<in> set ((fresh_node xs, k) # xs)" for k' j
  proof (cases "k' = k")
    case True
    have "(j, k) \<notin> set xs" using a by force
    with True show ?thesis by auto
  next
    case False
    then show ?thesis by (simp add: ix)
  qed
  then show ?thesis
    using d1 d2 f a by (simp add: index_ok_def)
qed

lemma index_ok_pop_back:
  assumes ok: "index_ok xs m" and ne: "xs \<noteq> []"
  shows "index_ok (butlast xs) (Mapping.delete (snd (last xs)) m)"
proof -
  obtain ys i k where xs: "xs = ys @ [(i, k)]"
    using ne by (metis rev_exhaust surj_pair)
  from ok have d1: "distinct (map fst ys)" and d2: "distinct (map snd ys)"
    and nk: "k \<notin> set (map snd ys)"
    and ix: "\<And>k' j. Mapping.lookup m k' = Some j \<longleftrightarrow> (j, k') \<in> set ys \<or> (j, k') = (i, k)"
    by (auto simp: index_ok_def xs)
  have "Mapping.lookup (Mapping.delete k m) k' = Some j \<longleftrightarrow> (j, k') \<in> set ys" for k' j
  proof (cases "k' = k")
    case True
    have "(j, k) \<notin> set ys" using nk by force
    with True show ?thesis by simp
  next
    case False
    then show ?thesis by (simp add: ix)
  qed
  then show ?thesis
    using d1 d2 by (simp add: index_ok_def xs)
qed

lemma index_ok_splice_front:
  assumes ok: "index_ok xs m" and look: "Mapping.lookup m k = Some i"
  shows "index_ok (splice_front i xs) m"
    and "map snd (splice_front i xs) = k # remove1 k (map snd xs)"
proof -
  from ok have d1: "distinct (map fst xs)" and d2: "distinct (map snd xs)"
    and ix: "\<And>k i. Mapping.lookup m k = Some i \<longleftrightarrow> (i, k) \<in> set xs"
    by (simp_all add: index_ok_def)
  from look ix have mem: "(i, k) \<in> set xs" by simp
  have s: "splice_front i xs = (i, k) # filter (\<lambda>p. snd p \<noteq> k) xs"
    using erase_node_by_key [OF d1 d2 mem] find_node [OF d1 mem]
    by (simp add: splice_front_def erase_node_def)
  show "map snd (splice_front i xs) = k # remove1 k (map snd xs)"
    by (simp add: s map_snd_filter_key [OF d2])
  have i: "i \<notin> set (map fst (filter (\<lambda>p. snd p \<noteq> k) xs))"
    using same_node_same_key [OF d1 d2 mem] by auto
  have st: "(j, k') \<in> set ((i, k) # filter (\<lambda>p. snd p \<noteq> k) xs) \<longleftrightarrow> (j, k') \<in> set xs" for j k'
    using mem same_node_same_key [OF d1 d2 mem, of "(j, k')"] by auto
  have k: "k \<notin> set (map snd (filter (\<lambda>p. snd p \<noteq> k) xs))"
    by auto
  show "index_ok (splice_front i xs) m"
    unfolding index_ok_def s using d1 d2 i k st ix
    by (simp add: distinct_map_filter)
qed


subsection \<open>What put and get do to a well-formed cache\<close>

lemma lru_inv_LRUCache: "lru_inv (LRUCache cap)"
  by (simp add: lru_inv_def LRUCache_def index_ok_empty)

lemma contains_iff: "lru_inv c \<Longrightarrow> contains key c \<longleftrightarrow> key \<in> set (keys_of c)"
  using index_ok_absent [of "items c" "cache_map c" key]
  by (simp add: lru_inv_def contains_def keys_of_def)

lemma put_absent:
  assumes ok: "index_ok (items c) (cache_map c)"
    and len: "length (items c) \<le> capacity c"
    and look: "Mapping.lookup (cache_map c) key = None"
  shows "lru_inv (put key c)"
    and "keys_of (put key c) = take (capacity c) (key # keys_of c)"
    and "capacity (put key c) = capacity c"
proof -
  define n where "n = fresh_node (items c)"
  define xs where "xs = (n, key) # items c"
  define m where "m = Mapping.update key n (cache_map c)"
  have ok': "index_ok xs m"
    unfolding xs_def m_def n_def by (rule index_ok_push_front [OF ok look])
  have sz: "Mapping.size m = Suc (length (items c))"
    using index_ok_size [OF ok'] by (simp add: xs_def)
  have p: "put key c =
      (if capacity c < Suc (length (items c))
       then c\<lparr>items := butlast xs, cache_map := Mapping.delete (snd (last xs)) m\<rparr>
       else c\<lparr>items := xs, cache_map := m\<rparr>)"
    using sz by (simp add: put_def look Let_def xs_def m_def n_def)
  show "capacity (put key c) = capacity c"
    by (simp add: p)
  show "lru_inv (put key c)"
  proof (cases "capacity c < Suc (length (items c))")
    case True
    have "index_ok (butlast xs) (Mapping.delete (snd (last xs)) m)"
      by (rule index_ok_pop_back [OF ok']) (simp add: xs_def)
    moreover have "length (butlast xs) \<le> capacity c"
      using len by (simp add: xs_def)
    ultimately show ?thesis
      using True by (simp add: p lru_inv_def)
  next
    case False
    then show ?thesis
      using ok' by (simp add: p lru_inv_def xs_def)
  qed
  show "keys_of (put key c) = take (capacity c) (key # keys_of c)"
  proof (cases "capacity c < Suc (length (items c))")
    case True
    with len have cap: "capacity c = length (items c)" by simp
    have "map snd (butlast xs) = butlast (key # map snd (items c))"
      by (simp add: xs_def map_butlast)
    also have "\<dots> = take (capacity c) (key # map snd (items c))"
      by (simp add: butlast_conv_take cap)
    finally show ?thesis
      using True by (simp add: p keys_of_def)
  next
    case False
    then show ?thesis
      by (simp add: p keys_of_def xs_def)
  qed
qed

lemma put_present:
  assumes look: "Mapping.lookup (cache_map c) key = Some it"
  shows "put key c =
         put key (c\<lparr>items := erase_node it (items c),
                    cache_map := Mapping.delete key (cache_map c)\<rparr>)"
  by (simp add: put_def look)

lemma put_effect:
  assumes inv: "lru_inv c"
  shows "lru_inv (put key c)"
    and "keys_of (put key c) = take (capacity c) (key # remove1 key (keys_of c))"
    and "capacity (put key c) = capacity c"
proof -
  from inv have ok: "index_ok (items c) (cache_map c)"
    and len: "length (items c) \<le> capacity c"
    by (simp_all add: lru_inv_def)
  have "lru_inv (put key c) \<and>
        keys_of (put key c) = take (capacity c) (key # remove1 key (keys_of c)) \<and>
        capacity (put key c) = capacity c"
  proof (cases "Mapping.lookup (cache_map c) key")
    case None
    then have "key \<notin> set (keys_of c)"
      using index_ok_absent [OF ok, of key] by (simp add: keys_of_def)
    then have "remove1 key (keys_of c) = keys_of c"
      by (rule remove1_idem)
    with put_absent [OF ok len None] show ?thesis by simp
  next
    case (Some it)
    define c1 where "c1 = c\<lparr>items := erase_node it (items c),
                            cache_map := Mapping.delete key (cache_map c)\<rparr>"
    have ok1: "index_ok (items c1) (cache_map c1)"
      using index_ok_erase(1) [OF ok Some] by (simp add: c1_def)
    have k1: "keys_of c1 = remove1 key (keys_of c)"
      using index_ok_erase(2) [OF ok Some] by (simp add: c1_def keys_of_def)
    have "length (items c1) \<le> length (items c)"
      by (simp add: c1_def erase_node_def)
    with len have len1: "length (items c1) \<le> capacity c1"
      by (simp add: c1_def)
    have look1: "Mapping.lookup (cache_map c1) key = None"
      by (simp add: c1_def)
    have "put key c = put key c1"
      unfolding c1_def by (rule put_present [OF Some])
    with put_absent [OF ok1 len1 look1] k1 show ?thesis
      by (simp add: c1_def)
  qed
  then show "lru_inv (put key c)"
    and "keys_of (put key c) = take (capacity c) (key # remove1 key (keys_of c))"
    and "capacity (put key c) = capacity c"
    by simp_all
qed

lemma get_effect:
  assumes inv: "lru_inv c"
  shows "fst (get key c) = contains key c"
    and "lru_inv (snd (get key c))"
    and "keys_of (snd (get key c)) =
           (if contains key c then key # remove1 key (keys_of c) else keys_of c)"
    and "capacity (snd (get key c)) = capacity c"
    and "cache_map (snd (get key c)) = cache_map c"
proof -
  from inv have ok: "index_ok (items c) (cache_map c)"
    and len: "length (items c) \<le> capacity c"
    by (simp_all add: lru_inv_def)
  have "fst (get key c) = contains key c \<and> lru_inv (snd (get key c)) \<and>
        keys_of (snd (get key c)) =
           (if contains key c then key # remove1 key (keys_of c) else keys_of c) \<and>
        capacity (snd (get key c)) = capacity c \<and>
        cache_map (snd (get key c)) = cache_map c"
  proof (cases "Mapping.lookup (cache_map c) key")
    case None
    then show ?thesis
      using inv by (simp add: get_def contains_def)
  next
    case (Some it)
    have "length (splice_front it (items c)) = length (items c)"
      using index_ok_size [OF ok] index_ok_size [OF index_ok_splice_front(1) [OF ok Some]]
      by simp
    then show ?thesis
      using index_ok_splice_front [OF ok Some] len Some
      by (simp add: get_def contains_def lru_inv_def keys_of_def)
  qed
  then show "fst (get key c) = contains key c"
    and "lru_inv (snd (get key c))"
    and "keys_of (snd (get key c)) =
           (if contains key c then key # remove1 key (keys_of c) else keys_of c)"
    and "capacity (snd (get key c)) = capacity c"
    and "cache_map (snd (get key c)) = cache_map c"
    by simp_all
qed


subsection \<open>Sequences of calls\<close>

lemma apply_op_inv:
  "lru_inv c \<Longrightarrow> lru_inv (apply_op x c) \<and> capacity (apply_op x c) = capacity c"
  by (cases x) (simp_all add: put_effect get_effect)

lemma run_inv:
  "lru_inv c \<Longrightarrow> lru_inv (run xs c) \<and> capacity (run xs c) = capacity c"
proof (induction xs arbitrary: c)
  case Nil
  then show ?case by simp
next
  case (Cons x xs)
  from apply_op_inv [OF Cons.prems, of x]
  have "lru_inv (apply_op x c)" and "capacity (apply_op x c) = capacity c"
    by simp_all
  with Cons.IH [of "apply_op x c"] show ?case by simp
qed

lemma reachable_inv:
  "lru_inv (run xs (LRUCache cap))" "capacity (run xs (LRUCache cap)) = cap"
  using run_inv [OF lru_inv_LRUCache, of xs cap] by (simp_all add: LRUCache_def)

lemma take_append_take: "take n (xs @ take n ys) = take n (xs @ ys)"
  by (simp add: min_def)

lemma put_all_fresh:
  assumes "lru_inv c" "distinct ks" "set ks \<inter> set (keys_of c) = {}"
  shows "lru_inv (put_all ks c) \<and> capacity (put_all ks c) = capacity c \<and>
         keys_of (put_all ks c) = take (capacity c) (rev ks @ keys_of c)"
  using assms
proof (induction ks arbitrary: c)
  case Nil
  then show ?case by (simp add: lru_inv_def keys_of_def)
next
  case (Cons k ks)
  from Cons.prems have nk: "k \<notin> set (keys_of c)" by simp
  then have r: "remove1 k (keys_of c) = keys_of c" by (rule remove1_idem)
  have i1: "lru_inv (put k c)" and c1: "capacity (put k c) = capacity c"
    and k1: "keys_of (put k c) = take (capacity c) (k # keys_of c)"
    using put_effect [OF Cons.prems(1), of k] r by simp_all
  have "set (keys_of (put k c)) \<subseteq> set (k # keys_of c)"
    unfolding k1 by (rule set_take_subset)
  with Cons.prems have d1: "distinct ks" and s1: "set ks \<inter> set (keys_of (put k c)) = {}"
    by auto
  from Cons.IH [OF i1 d1 s1] show ?case
    using take_append_take [of "capacity c" "rev ks" "k # keys_of c"]
    by (simp add: c1 k1)
qed

lemma put_all_LRUCache:
  assumes "distinct ks"
  shows "lru_inv (put_all ks (LRUCache cap))"
    and "keys_of (put_all ks (LRUCache cap)) = take cap (rev ks)"
  using put_all_fresh [OF lru_inv_LRUCache assms, of cap]
  by (simp_all add: LRUCache_def keys_of_def)

lemma put_all_inv:
  "lru_inv c \<Longrightarrow> lru_inv (put_all ks c) \<and> capacity (put_all ks c) = capacity c"
proof (induction ks arbitrary: c)
  case Nil
  then show ?case by simp
next
  case (Cons k ks)
  from put_effect(1,3) [OF Cons.prems, of k] Cons.IH [of "put k c"]
  show ?case by simp
qed

lemma scenario_promotion:
  assumes "a \<noteq> b" "a \<noteq> x" "b \<noteq> x"
  shows "fst (get a (put b (put a (LRUCache 2)))) \<and>
         \<not> contains b (put x (snd (get a (put b (put a (LRUCache 2)))))) \<and>
         contains a (put x (snd (get a (put b (put a (LRUCache 2)))))) \<and>
         contains x (put x (snd (get a (put b (put a (LRUCache 2))))))"
proof -
  define c2 where "c2 = put b (put a (LRUCache 2))"
  define s where "s = put x (snd (get a c2))"
  have i2: "lru_inv c2" and k2: "keys_of c2 = [b, a]" and cap2: "capacity c2 = 2"
    using put_all_LRUCache [of "[a, b]" 2] put_all_inv [OF lru_inv_LRUCache, of "[a, b]" 2] assms(1)
    by (simp_all add: c2_def LRUCache_def)
  have m2: "contains a c2"
    using contains_iff [OF i2, of a] k2 by simp
  have i3: "lru_inv (snd (get a c2))" and k3: "keys_of (snd (get a c2)) = [a, b]"
    and cap3: "capacity (snd (get a c2)) = 2"
    using get_effect(2,3,4) [OF i2, of a] m2 k2 cap2 assms(1) by simp_all
  have i4: "lru_inv s" and k4: "keys_of s = [x, a]"
    using put_effect(1,2) [OF i3, of x] k3 cap3 assms(2,3) by (simp_all add: s_def)
  have "fst (get a c2) \<and> \<not> contains b s \<and> contains a s \<and> contains x s"
    using get_effect(1) [OF i2, of a] m2 contains_iff [OF i4] k4 assms by simp
  then show ?thesis
    unfolding s_def c2_def .
qed

lemmas evaluate_lru = contains_def put_def get_def LRUCache_def size_lru_def keys_of_def
  erase_node_def splice_front_def Let_def Mapping.size_update Mapping.size_delete

text \<open>
  C5. A fresh cache of capacity C, at least 1, after C + 1 distinct keys have been put
  in order and nothing else done: the first key is absent, every later key is present,
  the cache holds C keys, and they are the later keys, the newest first. With C = 2 and
  the keys a, b, c this is the example of the claim.
\<close>

theorem lru_evicts_oldest:
  assumes "1 \<le> C" and "distinct ks" and "length ks = C + 1"
  shows "\<not> contains (hd ks) (put_all ks (LRUCache C)) \<and>
         (\<forall>k \<in> set (tl ks). contains k (put_all ks (LRUCache C))) \<and>
         size_lru (put_all ks (LRUCache C)) = C \<and>
         keys_of (put_all ks (LRUCache C)) = rev (tl ks)"
proof -
  obtain k1 rest where ks: "ks = k1 # rest"
    using assms(3) by (cases ks) simp_all
  with assms(3) have len: "length rest = C" by simp
  have "keys_of (put_all ks (LRUCache C)) = take C (rev rest @ [k1])"
    using put_all_LRUCache(2) [OF assms(2), of C] by (simp add: ks)
  then have keys: "keys_of (put_all ks (LRUCache C)) = rev rest"
    using len by simp
  have c: "contains k (put_all ks (LRUCache C)) \<longleftrightarrow> k \<in> set rest" for k
    using contains_iff [OF put_all_LRUCache(1) [OF assms(2)], of k C] keys by simp
  have "size_lru (put_all ks (LRUCache C)) = C"
    using arg_cong [OF keys, of length] len by (simp add: size_lru_def keys_of_def)
  moreover have "k1 \<notin> set rest"
    using assms(2) ks by simp
  ultimately show ?thesis
    using c keys by (simp add: ks)
qed

theorem lru_evicts_oldest_witness:
  "(1::nat) \<le> 2 \<and> distinct [''a'', ''b'', ''c''] \<and> length [''a'', ''b'', ''c''] = 2 + 1 \<and>
   \<not> contains ''a'' (put ''c'' (put ''b'' (put ''a'' (LRUCache 2)))) \<and>
   contains ''b'' (put ''c'' (put ''b'' (put ''a'' (LRUCache 2)))) \<and>
   contains ''c'' (put ''c'' (put ''b'' (put ''a'' (LRUCache 2))))"
  using lru_evicts_oldest [of 2 "[''a'', ''b'', ''c'']"] by simp

text \<open>
  C6. In any state the cache can reach, \<^verbatim>\<open>get\<close> returns whether the key is present,
  that is whether it is in the list; when it is, the key moves to the front of the
  recency order and the other keys keep their order; when it is not, nothing changes.
  And for capacity 2 and distinct a, b, x: after put(a), put(b), get(a), put(x) the call
  get(a) has returned true, b is absent, a and x are present.
\<close>

theorem get_promotes:
  "(let c = run ops (LRUCache C) in
      fst (get key c) = contains key c \<and>
      contains key c = (key \<in> set (keys_of c)) \<and>
      (contains key c \<longrightarrow> keys_of (snd (get key c)) = key # remove1 key (keys_of c)) \<and>
      (\<not> contains key c \<longrightarrow> snd (get key c) = c))
   \<and> (a \<noteq> b \<and> a \<noteq> x \<and> b \<noteq> x \<longrightarrow>
       (let c2 = put b (put a (LRUCache 2)); s = put x (snd (get a c2))
        in fst (get a c2) \<and> \<not> contains b s \<and> contains a s \<and> contains x s))"
proof -
  have inv: "lru_inv (run ops (LRUCache C))"
    by (rule reachable_inv)
  have "\<not> contains key c \<Longrightarrow> snd (get key c) = c" for c :: "'a lru_cache"
    by (simp add: get_def contains_def)
  then show ?thesis
    using get_effect(1,3) [OF inv, of key] contains_iff [OF inv, of key] scenario_promotion [of a b x]
    by (simp add: Let_def)
qed

theorem get_promotes_witness:
  "fst (get ''a'' (put ''b'' (put ''a'' (LRUCache 2)))) \<and>
   keys_of (snd (get ''a'' (put ''b'' (put ''a'' (LRUCache 2))))) = [''a'', ''b''] \<and>
   \<not> contains ''b'' (put ''c'' (snd (get ''a'' (put ''b'' (put ''a'' (LRUCache 2)))))) \<and>
   contains ''a'' (put ''c'' (snd (get ''a'' (put ''b'' (put ''a'' (LRUCache 2)))))) \<and>
   contains ''c'' (put ''c'' (snd (get ''a'' (put ''b'' (put ''a'' (LRUCache 2))))))"
  using get_promotes [of "[Put ''a'', Put ''b'']" 2 "''a''" "''a''" "''b''" "''c''"]
  by (simp add: evaluate_lru)

text \<open>
  C8. Whatever calls of put, get, contains and size are made on a cache constructed
  with capacity C (any C, so every C from 1 on), afterwards the size is at most C, the
  keys of the map are exactly the keys in the list, and no key is in the list twice.
\<close>

theorem lru_invariant:
  "size_lru (run ops (LRUCache C)) \<le> C \<and>
   Mapping.keys (cache_map (run ops (LRUCache C)))
     = set (map snd (items (run ops (LRUCache C)))) \<and>
   distinct (map snd (items (run ops (LRUCache C))))"
  using reachable_inv [of ops C]
    index_ok_keys [of "items (run ops (LRUCache C))" "cache_map (run ops (LRUCache C))"]
  by (simp add: lru_inv_def size_lru_def index_ok_def)

theorem lru_invariant_witness:
  "size_lru (run [Put ''a'', Put ''b'', Get ''a'', Contains ''b'', Size, Put ''c'', Put ''a'']
       (LRUCache 2)) = 2 \<and>
   Mapping.keys (cache_map
     (run [Put ''a'', Put ''b'', Get ''a'', Contains ''b'', Size, Put ''c'', Put ''a'']
       (LRUCache 2))) = {''a'', ''c''} \<and>
   map snd (items
     (run [Put ''a'', Put ''b'', Get ''a'', Contains ''b'', Size, Put ''c'', Put ''a'']
       (LRUCache 2))) = [''a'', ''c'']"
  using lru_invariant
    [of "[Put ''a'', Put ''b'', Get ''a'', Contains ''b'', Size, Put ''c'', Put ''a'']" 2]
  by (auto simp add: evaluate_lru)

text \<open>
  C10. A cache of capacity 0 is constructed like any other; after any puts it is empty:
  its size is 0 and it contains no key.
\<close>

theorem zero_capacity_stays_empty:
  "LRUCache 0 = \<lparr>capacity = 0, items = [], cache_map = Mapping.empty\<rparr> \<and>
   size_lru (put_all ks (LRUCache 0)) = 0 \<and> \<not> contains k (put_all ks (LRUCache 0))"
proof -
  have inv: "lru_inv (put_all ks (LRUCache 0))"
    and cap: "capacity (put_all ks (LRUCache 0)) = 0"
    using put_all_inv [OF lru_inv_LRUCache, of ks 0] by (simp_all add: LRUCache_def)
  then have e: "items (put_all ks (LRUCache 0)) = []"
    by (simp add: lru_inv_def)
  then show ?thesis
    using contains_iff [OF inv, of k] by (simp add: size_lru_def keys_of_def LRUCache_def)
qed

theorem zero_capacity_stays_empty_witness:
  "size_lru (put ''b'' (put ''a'' (put ''a'' (LRUCache 0)))) = 0 \<and>
   \<not> contains ''b'' (put ''b'' (put ''a'' (put ''a'' (LRUCache 0))))"
  using zero_capacity_stays_empty [of "[''a'', ''a'', ''b'']" "''b''"]
  by (simp add: evaluate_lru)

section \<open>Construction with size zero\<close>

text \<open>
  C3, as stated, fails: both constructors accept 0 and an object results, a cache of
  capacity 0 and, on a system that can start eight threads, a pool of no workers.
\<close>

theorem zero_size_constructed:
  "capacity (LRUCache 0 :: nat lru_cache) = 0 \<and>
   size_lru (LRUCache 0 :: nat lru_cache) = 0 \<and>
   ThreadPool 8 0
     = Some \<lparr>workers = 0, tasks = ([] :: nat list), stop = False, completed = 0\<rparr>"
  by (simp add: LRUCache_def size_lru_def ThreadPool_def)

text \<open>
  C3, amended. Construction with size 0 succeeds. The cache is empty with capacity 0.
  The pool starts no thread, so it results whatever number of threads the system can
  start: it is running, with no worker and nothing pending; it accepts a submission,
  which is queued; and whatever happens to it afterwards, it never executes a task.
\<close>

theorem zero_size_construction_succeeds:
  "capacity (LRUCache 0 :: 'k lru_cache) = 0 \<and>
   size_lru (LRUCache 0 :: 'k lru_cache) = 0 \<and>
   ThreadPool startable 0
     = Some \<lparr>workers = 0, tasks = ([] :: 'task list), stop = False, completed = 0\<rparr> \<and>
   enqueue f \<lparr>workers = 0, tasks = [], stop = False, completed = 0\<rparr>
     = (Inr (), \<lparr>workers = 0, tasks = [f], stop = False, completed = 0\<rparr>) \<and>
   completed (pool_run es \<lparr>workers = 0, tasks = ([] :: 'task list), stop = False, completed = 0\<rparr>)
     = 0"
  using pool_run_no_worker
    [of "\<lparr>workers = 0, tasks = ([] :: 'task list), stop = False, completed = 0\<rparr>" es]
  by (simp add: LRUCache_def size_lru_def ThreadPool_def enqueue_def)

text \<open>
  On a system that can start no thread at all, a pool of size 0 is still constructed;
  a task submitted to it stays queued through two worker events and a further
  submission.
\<close>

theorem zero_size_construction_succeeds_witness:
  "capacity (LRUCache 0 :: string lru_cache) = 0 \<and>
   ThreadPool 0 0
     = Some \<lparr>workers = 0, tasks = ([] :: nat list), stop = False, completed = 0\<rparr> \<and>
   enqueue (4::nat) (the (ThreadPool 0 0))
     = (Inr (), \<lparr>workers = 0, tasks = [4], stop = False, completed = 0\<rparr>) \<and>
   pool_run [Enqueue (4::nat), Worker, Worker, Enqueue 5] (the (ThreadPool 0 0))
     = \<lparr>workers = 0, tasks = [4, 5], stop = False, completed = 0\<rparr>"
  using zero_size_construction_succeeds
    [of 0 "4::nat" "[Enqueue (4::nat), Worker, Worker, Enqueue 5]", where ?'k = string]
  by (simp add: ThreadPool_def enqueue_def)

end
